theory Spec2Isabelle
  imports Complex_Main "HOL-Library.Char_ord" "HOL-Library.List_Lexorder"
    "HOL-Library.Product_Lexorder"
begin

section \<open>The analysis page: migration stages and their status\<close>

text \<open>
  The analysis page declares the constant table \<open>MIGRATION_STAGES\<close>: five stages, each
  with an id, display fields, an icon component and the list of the ids it depends on.
  The icon is one of the five imported icon components.
\<close>

datatype icon = Document | Shield | Banknotes | CurrencyDollar | PaperAirplane

record stage =
  stage_id :: string
  title :: string
  description :: string
  icon :: icon
  color :: string
  estimatedTime :: string
  dependencies :: "string list"

definition visa_stage :: stage where
  "visa_stage = \<lparr> stage_id = ''visa'', title = ''Visa Application'',
     description = ''Submit your visa application and required documents'',
     icon = Document, color = ''blue'', estimatedTime = ''2-4 weeks'',
     dependencies = [] \<rparr>"

definition insurance_stage :: stage where
  "insurance_stage = \<lparr> stage_id = ''insurance'', title = ''Health Insurance'',
     description = ''Obtain mandatory health insurance coverage'',
     icon = Shield, color = ''green'', estimatedTime = ''1-2 weeks'',
     dependencies = [''visa''] \<rparr>"

definition bank_stage :: stage where
  "bank_stage = \<lparr> stage_id = ''bank'', title = ''Bank Account'',
     description = ''Open a bank account in your destination country'',
     icon = Banknotes, color = ''purple'', estimatedTime = ''1-3 weeks'',
     dependencies = [''visa'', ''insurance''] \<rparr>"

definition income_stage :: stage where
  "income_stage = \<lparr> stage_id = ''income'', title = ''Proof of Income'',
     description = ''Provide financial documentation and proof of funds'',
     icon = CurrencyDollar, color = ''orange'', estimatedTime = ''1-2 weeks'',
     dependencies = [''bank''] \<rparr>"

definition flight_stage :: stage where
  "flight_stage = \<lparr> stage_id = ''flight'', title = ''Flight Options'',
     description = ''Book your flight and finalize travel arrangements'',
     icon = PaperAirplane, color = ''indigo'', estimatedTime = ''1 week'',
     dependencies = [''visa'', ''insurance'', ''bank'', ''income''] \<rparr>"

definition MIGRATION_STAGES :: "stage list" where
  "MIGRATION_STAGES = [visa_stage, insurance_stage, bank_stage, income_stage, flight_stage]"

text \<open>
  The dependency graph of a list of stages: one edge from a stage's id to every id in
  its \<open>dependencies\<close>.
\<close>

definition dependency_edges :: "stage list \<Rightarrow> (string \<times> string) list" where
  "dependency_edges ss =
     concat (map (\<lambda>s. map (\<lambda>d. (stage_id s, d)) (dependencies s)) ss)"

definition unique_ids :: "stage list \<Rightarrow> bool" where
  "unique_ids ss = distinct (map stage_id ss)"

definition dependencies_resolve :: "stage list \<Rightarrow> bool" where
  "dependencies_resolve ss =
     list_all (\<lambda>s. list_all (\<lambda>d. d \<in> set (map stage_id ss)) (dependencies s)) ss"

definition well_formed_stages :: "stage list \<Rightarrow> bool" where
  "well_formed_stages ss \<longleftrightarrow>
     unique_ids ss \<and> dependencies_resolve ss \<and> acyclic (set (dependency_edges ss))"

text \<open>
  The position of an id in the table, used to order the dependency graph: an id that is
  not in the table gets the table's length.
\<close>

fun position :: "string \<Rightarrow> stage list \<Rightarrow> nat" where
  "position x [] = 0"
| "position x (s # ss) = (if stage_id s = x then 0 else Suc (position x ss))"

subsection \<open>The page state and \<open>getStageStatus\<close>\<close>

text \<open>
  \<open>migrationData\<close> is component state of type \<open>any\<close>: initially \<open>null\<close>, later the result
  of \<open>JSON.parse\<close> on the stored document context, so it is an arbitrary JSON value. An
  object is the list of its own properties.
\<close>

datatype json =
    JNull
  | JBool bool
  | JNum real
  | JStr string
  | JArr "json list"
  | JObj "(string \<times> json) list"

text \<open>
  The optional property access \<open>migrationData?.visaStatus\<close>: \<open>None\<close> is JavaScript's
  \<open>undefined\<close>. On \<open>null\<close> the optional chain yields \<open>undefined\<close>; a boolean, number, string
  or array has no property of that name; an object yields its property, or \<open>undefined\<close>
  when it has none.
\<close>

fun visaStatus :: "json \<Rightarrow> json option" where
  "visaStatus (JObj props) = map_of props ''visaStatus''"
| "visaStatus _ = None"

text \<open>
  \<open>getStageStatus\<close> reads the component state \<open>analysisComplete\<close> and \<open>migrationData\<close>,
  here passed as arguments, and the id of the stage. The strict equality \<open>===\<close> with a
  string literal holds only for that string.
\<close>

definition getStageStatus :: "bool \<Rightarrow> json \<Rightarrow> 'a stage_scheme \<Rightarrow> string" where
  "getStageStatus analysisComplete migrationData stg =
     (if \<not> analysisComplete then ''pending''
      else if stage_id stg = ''visa'' then
        (if visaStatus migrationData = Some (JStr ''yes'') then ''completed''
         else if visaStatus migrationData = Some (JStr ''applied'') then ''in-progress''
         else ''pending'')
      else if stage_id stg = ''insurance'' then ''pending''
      else if stage_id stg = ''bank'' then ''pending''
      else if stage_id stg = ''income'' then ''pending''
      else if stage_id stg = ''flight'' then ''pending''
      else ''pending'')"

section \<open>The dashboard page: statistics over the timeline\<close>

text \<open>
  The dashboard imports \<open>mockTimeline\<close> and the type \<open>TimelineEvent\<close> from a data module;
  the statistics read the fields \<open>status\<close> and \<open>priority\<close> of each event. The timeline is
  a parameter of the definitions below, and further fields of an event live in the
  record's extension.
\<close>

record TimelineEvent =
  status :: string
  priority :: string

text \<open>
  The JavaScript numbers that the statistics can produce are \<open>NaN\<close>, \<open>Infinity\<close> and the
  finite doubles that are not negative. \<open>Num m e\<close> is the double \<open>m * 2 ^ e\<close>.
\<close>

datatype js_number = NaN | Infinity | Num nat int

fun number_value :: "js_number \<Rightarrow> real option" where
  "number_value NaN = None"
| "number_value Infinity = None"
| "number_value (Num m e) = Some (real m * 2 powr real_of_int e)"

text \<open>
  The arithmetic of the page is that of IEEE 754 doubles: the result of a division or a
  multiplication is the exact result rounded to the nearest number with a significand
  of 53 bits, a tie going to the even significand. \<open>round_double n d e\<close> rounds the
  positive number \<open>n / d * 2 ^ e\<close>: it scales the quotient \<open>n / d\<close> by a power of two into
  the range from \<open>2 ^ 52\<close> up to \<open>2 ^ 53\<close>, where the doubles are the whole
  numbers, and rounds it there. The operands of the page are array lengths, which are
  below \<open>2 ^ 32\<close>, so its quotient and product are far from overflow and underflow, and
  the range of the exponent is left unbounded.
\<close>

fun bit_length :: "nat \<Rightarrow> nat" where
  "bit_length n = (if n = 0 then 0 else Suc (bit_length (n div 2)))"

declare bit_length.simps [simp del]

definition scaled :: "nat \<Rightarrow> nat \<Rightarrow> int \<Rightarrow> nat \<times> nat" where
  "scaled n d s = (if 0 \<le> s then (n * 2 ^ nat s, d) else (n, d * 2 ^ nat (- s)))"

definition round_half_even :: "nat \<Rightarrow> nat \<Rightarrow> nat" where
  "round_half_even n d =
     (let q = n div d; r = n mod d in
      if 2 * r < d then q
      else if d < 2 * r then q + 1
      else if even q then q else q + 1)"

definition round_double :: "nat \<Rightarrow> nat \<Rightarrow> int \<Rightarrow> js_number" where
  "round_double n d e =
     (let s0 = 53 + int (bit_length d) - int (bit_length n);
          s = (case scaled n d s0 of (N, D) \<Rightarrow> if D * 2 ^ 53 \<le> N then s0 - 1 else s0)
      in case scaled n d s of (N, D) \<Rightarrow> Num (round_half_even N D) (e - s))"

text \<open>
  The division \<open>/\<close> of two array lengths, which are exact as doubles: \<open>0 / 0\<close> is \<open>NaN\<close>, a
  positive length over \<open>0\<close> is \<open>Infinity\<close>, and any other quotient is rounded. The
  multiplication \<open>*\<close> of a number by a whole number such as \<open>100\<close> rounds the exact
  product.
\<close>

definition js_divide :: "nat \<Rightarrow> nat \<Rightarrow> js_number" where
  "js_divide a b =
     (if b = 0 then (if a = 0 then NaN else Infinity)
      else if a = 0 then Num 0 0
      else round_double a b 0)"

fun js_times :: "js_number \<Rightarrow> nat \<Rightarrow> js_number" where
  "js_times NaN c = NaN"
| "js_times Infinity c = (if c = 0 then NaN else Infinity)"
| "js_times (Num m e) c = (if m * c = 0 then Num 0 0 else round_double (m * c) 1 e)"

text \<open>
  \<open>Math.round\<close> gives the whole number nearest to its argument, a tie going upwards:
  the floor of the argument plus one half, computed exactly. \<open>NaN\<close> and \<open>Infinity\<close> are
  returned as they are.
\<close>

fun Math_round :: "js_number \<Rightarrow> js_number" where
  "Math_round NaN = NaN"
| "Math_round Infinity = Infinity"
| "Math_round (Num m e) =
     (if 0 \<le> e then Num (m * 2 ^ nat e) 0
      else Num ((2 * m + 2 ^ nat (- e)) div (2 * 2 ^ nat (- e))) 0)"

text \<open>The statistics of the dashboard page, computed on every render.\<close>

definition upcomingDeadlines :: "'a TimelineEvent_scheme list \<Rightarrow> nat" where
  "upcomingDeadlines mockTimeline =
     length (filter (\<lambda>event. status event = ''upcoming'' \<and> priority event = ''critical'')
       mockTimeline)"

definition completedTasks :: "'a TimelineEvent_scheme list \<Rightarrow> nat" where
  "completedTasks mockTimeline =
     length (filter (\<lambda>event. status event = ''completed'') mockTimeline)"

definition totalTasks :: "'a TimelineEvent_scheme list \<Rightarrow> nat" where
  "totalTasks mockTimeline = length mockTimeline"

definition overallProgress :: "'a TimelineEvent_scheme list \<Rightarrow> js_number" where
  "overallProgress mockTimeline =
     js_times (js_divide (completedTasks mockTimeline) (totalTasks mockTimeline)) 100"

text \<open>
  The page shows \<open>upcomingDeadlines\<close> as it is, and the overall progress as
  \<open>Math.round(overallProgress)\<close> followed by a percent sign.
\<close>

definition overallProgressShown :: "'a TimelineEvent_scheme list \<Rightarrow> js_number" where
  "overallProgressShown mockTimeline = Math_round (overallProgress mockTimeline)"

text \<open>Two timelines: one task of three completed, and 23 tasks of 40 completed.\<close>

definition completed_event :: TimelineEvent where
  "completed_event = \<lparr>status = ''completed'', priority = ''high''\<rparr>"

definition critical_event :: TimelineEvent where
  "critical_event = \<lparr>status = ''upcoming'', priority = ''critical''\<rparr>"

definition one_of_three :: "TimelineEvent list" where
  "one_of_three = [completed_event, critical_event, critical_event]"

definition twenty_three_of_forty :: "TimelineEvent list" where
  "twenty_three_of_forty = replicate 23 completed_event @ replicate 17 critical_event"

section \<open>The journey core: facts and the Fact Merger\<close>

text \<open>
  The journey orchestration core (Fact Merger, Reconciler) is specified in the design
  document of the repository; its implementation is not among the source files. The
  definitions of this section and the next follow the words of that document.
\<close>

type_synonym FactKey = string

text \<open>
  Modelled from the spec: the \<open>Fact\<close> of the data model, \<open>{value, confidence, sourceRef,
  observedAt}\<close>; the implementation of the data model is missing. \<open>observedAt\<close> is a
  timestamp, \<open>confidence\<close> a number.
\<close>

record Fact =
  fact_value :: string
  confidence :: real
  sourceRef :: string
  observedAt :: int

text \<open>
  Modelled from the spec: the \<open>FactSet\<close>, a mapping from \<open>FactKey\<close> to \<open>Fact\<close>; the
  implementation of the data model is missing.
\<close>

type_synonym FactSet = "FactKey \<rightharpoonup> Fact"

text \<open>
  Modelled from the spec: \<open>MergeResult{changedKeys: set<FactKey>, rejected:
  list<FactKey>}\<close>, the result of the missing function \<open>Merge\<close>.
\<close>

record MergeResult =
  changedKeys :: "FactKey set"
  rejected :: "FactKey list"

text \<open>
  Modelled from the spec: the acceptance rule of the missing function \<open>Merge\<close>. A
  candidate for a key with no stored fact is accepted; against a stored fact it is
  accepted if it is newer, or equally old with a higher confidence, and is otherwise
  stale. A candidate as old and as confident as the stored fact is therefore stale: the
  fact that arrived first stays.
\<close>

definition accepts :: "Fact option \<Rightarrow> Fact \<Rightarrow> bool" where
  "accepts stored cand =
     (case stored of
        None \<Rightarrow> True
      | Some f \<Rightarrow> observedAt f < observedAt cand
                  \<or> (observedAt cand = observedAt f \<and> confidence f < confidence cand))"

text \<open>
  Modelled from the spec: one candidate of the missing function \<open>Merge\<close>. An accepted
  candidate overwrites the stored fact, and its key is a changed key when the value
  changed; a stale candidate leaves the facts as they are and is reported in \<open>rejected\<close>.
\<close>

definition merge_fact ::
  "FactSet \<times> MergeResult \<Rightarrow> FactKey \<times> Fact \<Rightarrow> FactSet \<times> MergeResult" where
  "merge_fact st c =
     (case st of (facts, res) \<Rightarrow> case c of (k, cand) \<Rightarrow>
        if accepts (facts k) cand then
          (facts(k \<mapsto> cand),
           if map_option fact_value (facts k) = Some (fact_value cand) then res
           else res\<lparr>changedKeys := insert k (changedKeys res)\<rparr>)
        else (facts, res\<lparr>rejected := rejected res @ [k]\<rparr>))"

text \<open>
  Modelled from the spec: the missing function \<open>Merge(journeyId, candidateFacts)\<close>. The
  journey's stored FactSet is passed in place of the journey id, and the merged FactSet,
  which the caller persists, is returned beside the result.
\<close>

definition Merge :: "FactSet \<Rightarrow> (FactKey \<times> Fact) list \<Rightarrow> FactSet \<times> MergeResult" where
  "Merge facts candidateFacts =
     foldl merge_fact (facts, \<lparr>changedKeys = {}, rejected = []\<rparr>) candidateFacts"

text \<open>
  Modelled from the spec: a sequence of fact merges into a journey's FactSet, each merge
  a call of the missing function \<open>Merge\<close> whose merged FactSet is stored.
\<close>

definition merge_sequence :: "FactSet \<Rightarrow> (FactKey \<times> Fact) list list \<Rightarrow> FactSet" where
  "merge_sequence facts batches = foldl (\<lambda>fs cands. fst (Merge fs cands)) facts batches"

text \<open>
  The fact store alone under one candidate, and the observation times that a key has
  seen: those of the candidates for the key, and with \<open>observed_times\<close> that of the fact
  stored for it at the start.
\<close>

definition store_step :: "FactSet \<Rightarrow> FactKey \<times> Fact \<Rightarrow> FactSet" where
  "store_step facts c =
     (if accepts (facts (fst c)) (snd c) then facts(fst c \<mapsto> snd c) else facts)"

definition times_for :: "FactKey \<Rightarrow> (FactKey \<times> Fact) list \<Rightarrow> int list" where
  "times_for k cs = map (observedAt \<circ> snd) (filter (\<lambda>c. fst c = k) cs)"

definition observed_times ::
  "FactSet \<Rightarrow> (FactKey \<times> Fact) list list \<Rightarrow> FactKey \<Rightarrow> int list" where
  "observed_times facts batches k =
     (case facts k of None \<Rightarrow> [] | Some f \<Rightarrow> [observedAt f])
     @ map (observedAt \<circ> snd) (filter (\<lambda>c. fst c = k) (concat batches))"

text \<open>The scenario of the design document: a stored student visa, a stale work visa.\<close>

definition student_fact :: Fact where
  "student_fact = \<lparr> fact_value = ''student'', confidence = 0.9, sourceRef = ''doc-1'',
     observedAt = 100 \<rparr>"

definition work_fact :: Fact where
  "work_fact = \<lparr> fact_value = ''work'', confidence = 0.8, sourceRef = ''news-7'',
     observedAt = 50 \<rparr>"

section \<open>The journey core: timelines and the Reconciler\<close>

text \<open>
  Modelled from the spec: the \<open>TimelineStep\<close> of the data model, \<open>{stepId, title, kind,
  plannedDate, status, dependsOn}\<close> with status \<open>upcoming | current | completed |
  overdue\<close>; the implementation of the data model is missing. \<open>datePinned\<close> records that
  the user has explicitly pinned the date of the step.
\<close>

datatype StepStatus = Upcoming | Current | Completed | Overdue

record TimelineStep =
  stepId :: string
  step_title :: string
  kind :: string
  plannedDate :: int
  step_status :: StepStatus
  dependsOn :: "string set"
  datePinned :: bool

text \<open>
  Modelled from the spec: the \<open>Timeline\<close> of the data model, an ordered sequence of steps
  with \<open>generatedAt\<close> and \<open>sourceFactsHash\<close>; the implementation of the data model is
  missing.
\<close>

record Timeline =
  steps :: "TimelineStep list"
  generatedAt :: int
  sourceFactsHash :: string

text \<open>Modelled from the spec: the error taxonomy of the missing core.\<close>

datatype error =
  StaleFact | SynthesisUnavailable | SynthesisInvalid | VersionConflict | DependencyCycle

text \<open>
  Modelled from the spec: the dependency graph of a timeline, which the missing
  Synthesizer and Reconciler validate: an edge from a step's id to each id it depends
  on; and the validation that dependency references resolve within the set.
\<close>

definition step_edges :: "TimelineStep list \<Rightarrow> (string \<times> string) set" where
  "step_edges ss = (\<Union>s \<in> set ss. Pair (stepId s) ` dependsOn s)"

definition dependsOn_resolved :: "TimelineStep list \<Rightarrow> bool" where
  "dependsOn_resolved ss = list_all (\<lambda>s. dependsOn s \<subseteq> stepId ` set ss) ss"

text \<open>
  Modelled from the spec: a step matched by \<open>stepId\<close> in the missing function
  \<open>Reconcile\<close>. The merged step keeps the old step's status and other fields and adopts
  the new step's title, dependencies and planned date, the date unless it is pinned.
\<close>

definition merge_step :: "TimelineStep \<Rightarrow> TimelineStep \<Rightarrow> TimelineStep" where
  "merge_step old new =
     old\<lparr> step_title := step_title new,
          dependsOn := dependsOn new,
          plannedDate := (if datePinned old then plannedDate old else plannedDate new) \<rparr>"

text \<open>
  Modelled from the spec: what the missing function \<open>Reconcile\<close> does with a step of the
  old timeline. A step matched in the new timeline is merged with its match; a step
  present only in the old timeline is retained when it is already completed, and
  dropped otherwise.
\<close>

definition carry_over :: "TimelineStep list \<Rightarrow> TimelineStep \<Rightarrow> TimelineStep option" where
  "carry_over new_steps old =
     (case find (\<lambda>n. stepId n = stepId old) new_steps of
        Some n \<Rightarrow> Some (merge_step old n)
      | None \<Rightarrow> if step_status old = Completed then Some old else None)"

text \<open>
  Modelled from the spec: the steps present only in the new timeline, which the missing
  function \<open>Reconcile\<close> inserts, in the order of the tie-break: by \<open>plannedDate\<close>, then by
  \<open>stepId\<close> ascending.
\<close>

definition new_only :: "TimelineStep list \<Rightarrow> TimelineStep list \<Rightarrow> TimelineStep list" where
  "new_only old_steps new_steps =
     sort_key (\<lambda>n. (plannedDate n, stepId n))
       (filter (\<lambda>n. stepId n \<notin> stepId ` set old_steps) new_steps)"

definition insert_at :: "nat \<Rightarrow> 'a \<Rightarrow> 'a list \<Rightarrow> 'a list" where
  "insert_at i x xs = take i xs @ x # drop i xs"

text \<open>
  Modelled from the spec: the step list of the missing function \<open>Reconcile\<close>. The steps
  carried over from the old timeline stay in their order, and each step present only in
  the new timeline is inserted at the position implied by its dependency ordering. The
  design document does not fix that position further, so it is the parameter \<open>place\<close>:
  the index at which a step goes into the list built so far.
\<close>

definition merged_steps ::
  "(TimelineStep list \<Rightarrow> TimelineStep \<Rightarrow> nat) \<Rightarrow> TimelineStep list \<Rightarrow> TimelineStep list
     \<Rightarrow> TimelineStep list" where
  "merged_steps place old_steps new_steps =
     foldl (\<lambda>acc n. insert_at (place acc n) n acc)
       (List.map_filter (carry_over new_steps) old_steps)
       (new_only old_steps new_steps)"

text \<open>
  Modelled from the spec: the missing function \<open>Reconcile(oldTimeline, newTimeline)\<close>.
  The dependency graph of the result is validated again; a cycle is the fatal defect
  \<open>DependencyCycle\<close>, and no timeline is returned. The merged timeline carries the
  generation time and facts hash of the new timeline.
\<close>

definition Reconcile ::
  "(TimelineStep list \<Rightarrow> TimelineStep \<Rightarrow> nat) \<Rightarrow> Timeline \<Rightarrow> Timeline \<Rightarrow> error + Timeline" where
  "Reconcile place oldTimeline newTimeline =
     (let merged = merged_steps place (steps oldTimeline) (steps newTimeline) in
      if acyclic (step_edges merged) then Inr (newTimeline\<lparr>steps := merged\<rparr>)
      else Inl DependencyCycle)"

text \<open>
  The scenario of the design document: the old timeline has the completed step \<open>S1\<close>,
  the new timeline omits it. New steps are placed at the end.
\<close>

definition S1 :: TimelineStep where
  "S1 = \<lparr> stepId = ''S1'', step_title = ''Collect documents'', kind = ''document'',
     plannedDate = 10, step_status = Completed, dependsOn = {}, datePinned = False \<rparr>"

definition S2_old :: TimelineStep where
  "S2_old = \<lparr> stepId = ''S2'', step_title = ''Book appointment'', kind = ''appointment'',
     plannedDate = 20, step_status = Current, dependsOn = {''S1''}, datePinned = False \<rparr>"

definition S2_new :: TimelineStep where
  "S2_new = \<lparr> stepId = ''S2'', step_title = ''Book embassy appointment'',
     kind = ''appointment'', plannedDate = 25, step_status = Upcoming, dependsOn = {},
     datePinned = False \<rparr>"

definition S3 :: TimelineStep where
  "S3 = \<lparr> stepId = ''S3'', step_title = ''Attend interview'', kind = ''appointment'',
     plannedDate = 30, step_status = Upcoming, dependsOn = {''S2''}, datePinned = False \<rparr>"

definition old_timeline :: Timeline where
  "old_timeline = \<lparr> steps = [S1, S2_old], generatedAt = 1, sourceFactsHash = ''h1'' \<rparr>"

definition new_timeline :: Timeline where
  "new_timeline = \<lparr> steps = [S2_new, S3], generatedAt = 2, sourceFactsHash = ''h2'' \<rparr>"

definition at_end :: "TimelineStep list \<Rightarrow> TimelineStep \<Rightarrow> nat" where
  "at_end acc n = length acc"

section \<open>Properties of the migration stages\<close>

lemma stage_ids_MIGRATION_STAGES:
  "map stage_id MIGRATION_STAGES = [''visa'', ''insurance'', ''bank'', ''income'', ''flight'']"
  by (simp add: MIGRATION_STAGES_def visa_stage_def insurance_stage_def bank_stage_def
      income_stage_def flight_stage_def)

lemma dependency_edges_MIGRATION_STAGES:
  "dependency_edges MIGRATION_STAGES =
     [(''insurance'', ''visa''),
      (''bank'', ''visa''), (''bank'', ''insurance''),
      (''income'', ''bank''),
      (''flight'', ''visa''), (''flight'', ''insurance''), (''flight'', ''bank''),
      (''flight'', ''income'')]"
  by (simp add: dependency_edges_def MIGRATION_STAGES_def visa_stage_def insurance_stage_def
      bank_stage_def income_stage_def flight_stage_def)

lemma dependencies_point_backwards:
  "(a, b) \<in> set (dependency_edges MIGRATION_STAGES) \<Longrightarrow>
     position b MIGRATION_STAGES < position a MIGRATION_STAGES"
  unfolding dependency_edges_MIGRATION_STAGES
  by (auto simp: MIGRATION_STAGES_def visa_stage_def insurance_stage_def bank_stage_def
      income_stage_def flight_stage_def)

lemma acyclic_MIGRATION_STAGES: "acyclic (set (dependency_edges MIGRATION_STAGES))"
proof -
  let ?rank = "\<lambda>x. position x MIGRATION_STAGES"
  have "set (dependency_edges MIGRATION_STAGES) \<subseteq> (inv_image less_than ?rank)\<inverse>"
    using dependencies_point_backwards by (auto simp: inv_image_def)
  moreover have "wf (inv_image less_than ?rank)"
    by (rule wf_inv_image[OF wf_less_than])
  then have "acyclic ((inv_image less_than ?rank)\<inverse>)"
    by (simp only: acyclic_converse wf_acyclic)
  ultimately show ?thesis by (rule acyclic_subset[rotated])
qed

text \<open>
  Claim C1. The timeline held by the program, \<open>MIGRATION_STAGES\<close>, is well formed: the
  ids of its stages are pairwise distinct, every id listed in a stage's dependencies is
  the id of a stage of the table, and the dependency graph has no cycle.
\<close>

theorem MIGRATION_STAGES_well_formed:
  "distinct (map stage_id MIGRATION_STAGES)
   \<and> (\<forall>s \<in> set MIGRATION_STAGES. \<forall>d \<in> set (dependencies s).
         \<exists>s' \<in> set MIGRATION_STAGES. stage_id s' = d)
   \<and> acyclic (set (dependency_edges MIGRATION_STAGES))"
proof (intro conjI)
  show "distinct (map stage_id MIGRATION_STAGES)"
    by (simp add: stage_ids_MIGRATION_STAGES)
  show "\<forall>s \<in> set MIGRATION_STAGES. \<forall>d \<in> set (dependencies s).
          \<exists>s' \<in> set MIGRATION_STAGES. stage_id s' = d"
    by (simp add: MIGRATION_STAGES_def visa_stage_def insurance_stage_def bank_stage_def
        income_stage_def flight_stage_def)
  show "acyclic (set (dependency_edges MIGRATION_STAGES))"
    by (rule acyclic_MIGRATION_STAGES)
qed

theorem MIGRATION_STAGES_well_formed_witness:
  "flight_stage \<in> set MIGRATION_STAGES \<and> ''income'' \<in> set (dependencies flight_stage)
   \<and> (\<exists>s' \<in> set MIGRATION_STAGES. stage_id s' = ''income'')
   \<and> well_formed_stages MIGRATION_STAGES"
proof -
  have mem: "flight_stage \<in> set MIGRATION_STAGES"
    by (simp add: MIGRATION_STAGES_def)
  have dep: "''income'' \<in> set (dependencies flight_stage)"
    by (simp add: flight_stage_def)
  have res: "\<exists>s' \<in> set MIGRATION_STAGES. stage_id s' = ''income''"
    using MIGRATION_STAGES_well_formed mem dep by blast
  have "dependencies_resolve MIGRATION_STAGES"
    using MIGRATION_STAGES_well_formed
    unfolding dependencies_resolve_def list_all_iff by (fastforce simp: image_iff)
  then have "well_formed_stages MIGRATION_STAGES"
    using MIGRATION_STAGES_well_formed
    by (simp add: well_formed_stages_def unique_ids_def)
  with mem dep res show ?thesis by simp
qed

section \<open>Properties of \<open>getStageStatus\<close>\<close>

lemma getStageStatus_not_visa:
  "stage_id stg \<noteq> ''visa'' \<Longrightarrow> getStageStatus analysisComplete migrationData stg = ''pending''"
  by (simp add: getStageStatus_def)

lemma getStageStatus_completed_iff:
  "getStageStatus analysisComplete migrationData stg = ''completed'' \<longleftrightarrow>
     stage_id stg = ''visa'' \<and> analysisComplete
     \<and> visaStatus migrationData = Some (JStr ''yes'')"
  by (simp add: getStageStatus_def)

lemma getStageStatus_in_progress_iff:
  "getStageStatus analysisComplete migrationData stg = ''in-progress'' \<longleftrightarrow>
     stage_id stg = ''visa'' \<and> analysisComplete
     \<and> visaStatus migrationData = Some (JStr ''applied'')"
  by (simp add: getStageStatus_def)

lemma stage_id_of_stages:
  "stage_id visa_stage = ''visa''" "stage_id insurance_stage = ''insurance''"
  "stage_id bank_stage = ''bank''" "stage_id income_stage = ''income''"
  "stage_id flight_stage = ''flight''"
  by (simp_all add: visa_stage_def insurance_stage_def bank_stage_def income_stage_def
      flight_stage_def)

lemma completed_stage_has_no_dependencies:
  assumes "stg \<in> set MIGRATION_STAGES"
    and "getStageStatus analysisComplete migrationData stg = ''completed''"
  shows "dependencies stg = []"
proof -
  from assms(2) have "stage_id stg = ''visa''"
    by (simp add: getStageStatus_completed_iff)
  with assms(1) have "stg = visa_stage"
    by (auto simp: MIGRATION_STAGES_def stage_id_of_stages)
  then show ?thesis by (simp add: visa_stage_def)
qed

text \<open>
  Claim C2. Whatever \<open>migrationData\<close> is (\<open>null\<close>, an object without \<open>visaStatus\<close>, an
  object with any \<open>visaStatus\<close>, or any other JSON value) and whatever \<open>analysisComplete\<close>
  is, the statuses that \<open>getStageStatus\<close> gives to the stages of \<open>MIGRATION_STAGES\<close> respect
  the dependency invariant: when a stage is \<open>completed\<close>, every stage of the table that one
  of its dependencies names is \<open>completed\<close> too.
\<close>

theorem getStageStatus_respects_dependencies:
  "\<forall>stg \<in> set MIGRATION_STAGES.
     getStageStatus analysisComplete migrationData stg = ''completed'' \<longrightarrow>
       (\<forall>d \<in> set (dependencies stg). \<forall>dep \<in> set MIGRATION_STAGES.
          stage_id dep = d \<longrightarrow>
            getStageStatus analysisComplete migrationData dep = ''completed'')"
proof (intro ballI impI)
  fix stg d dep
  assume "stg \<in> set MIGRATION_STAGES"
    and "getStageStatus analysisComplete migrationData stg = ''completed''"
    and "d \<in> set (dependencies stg)"
  then have False
    using completed_stage_has_no_dependencies by fastforce
  then show "getStageStatus analysisComplete migrationData dep = ''completed''" ..
qed

theorem getStageStatus_respects_dependencies_witness:
  "visa_stage \<in> set MIGRATION_STAGES
   \<and> getStageStatus True (JObj [(''visaStatus'', JStr ''yes'')]) visa_stage = ''completed''
   \<and> list_all (\<lambda>d. list_all (\<lambda>dep. stage_id dep \<noteq> d \<or>
          getStageStatus True (JObj [(''visaStatus'', JStr ''yes'')]) dep = ''completed'')
        MIGRATION_STAGES) (dependencies visa_stage)
   \<and> getStageStatus True (JObj [(''visaStatus'', JStr ''yes'')]) insurance_stage = ''pending''"
proof -
  let ?md = "JObj [(''visaStatus'', JStr ''yes'')]"
  have mem: "visa_stage \<in> set MIGRATION_STAGES"
    by (simp add: MIGRATION_STAGES_def)
  have compl: "getStageStatus True ?md visa_stage = ''completed''"
    by (simp add: getStageStatus_def visa_stage_def)
  have "\<forall>d \<in> set (dependencies visa_stage). \<forall>dep \<in> set MIGRATION_STAGES.
          stage_id dep = d \<longrightarrow> getStageStatus True ?md dep = ''completed''"
    using getStageStatus_respects_dependencies[of True ?md] mem compl by blast
  then have deps: "list_all (\<lambda>d. list_all (\<lambda>dep. stage_id dep \<noteq> d \<or>
          getStageStatus True ?md dep = ''completed'') MIGRATION_STAGES) (dependencies visa_stage)"
    unfolding list_all_iff by blast
  have "getStageStatus True ?md insurance_stage = ''pending''"
    by (simp add: getStageStatus_def insurance_stage_def)
  with mem compl deps show ?thesis by simp
qed

text \<open>
  Claim C3. For every stage whose id is not \<open>visa\<close> (so for the four other stages of
  \<open>MIGRATION_STAGES\<close>), every \<open>migrationData\<close> and every value of \<open>analysisComplete\<close>, the
  status is \<open>pending\<close>. A stage is \<open>completed\<close> exactly when it is the \<open>visa\<close> stage, the
  analysis is complete and \<open>migrationData.visaStatus\<close> is \<open>yes\<close>; it is \<open>in-progress\<close>
  exactly when it is the \<open>visa\<close> stage, the analysis is complete and the visa status is
  \<open>applied\<close>.
\<close>

theorem only_visa_reflects_progress:
  "(\<forall>stg \<in> set MIGRATION_STAGES. stage_id stg \<noteq> ''visa'' \<longrightarrow>
      getStageStatus analysisComplete migrationData stg = ''pending'')
   \<and> (\<forall>stg \<in> set MIGRATION_STAGES.
        (getStageStatus analysisComplete migrationData stg = ''completed'' \<longleftrightarrow>
           stage_id stg = ''visa'' \<and> analysisComplete
           \<and> visaStatus migrationData = Some (JStr ''yes''))
      \<and> (getStageStatus analysisComplete migrationData stg = ''in-progress'' \<longleftrightarrow>
           stage_id stg = ''visa'' \<and> analysisComplete
           \<and> visaStatus migrationData = Some (JStr ''applied'')))"
  by (simp add: getStageStatus_not_visa getStageStatus_completed_iff
      getStageStatus_in_progress_iff)

theorem only_visa_reflects_progress_witness:
  "flight_stage \<in> set MIGRATION_STAGES \<and> stage_id flight_stage \<noteq> ''visa''
   \<and> getStageStatus True (JObj [(''visaStatus'', JStr ''yes'')]) flight_stage = ''pending''
   \<and> visa_stage \<in> set MIGRATION_STAGES
   \<and> getStageStatus True (JObj [(''visaStatus'', JStr ''applied'')]) visa_stage = ''in-progress''
   \<and> getStageStatus True (JObj [(''visaStatus'', JStr ''yes'')]) visa_stage = ''completed''
   \<and> getStageStatus False (JObj [(''visaStatus'', JStr ''yes'')]) visa_stage = ''pending''
   \<and> getStageStatus True JNull visa_stage = ''pending''"
proof -
  have fl: "flight_stage \<in> set MIGRATION_STAGES" "stage_id flight_stage \<noteq> ''visa''"
    by (simp_all add: MIGRATION_STAGES_def flight_stage_def)
  have vi: "visa_stage \<in> set MIGRATION_STAGES" "stage_id visa_stage = ''visa''"
    by (simp_all add: MIGRATION_STAGES_def visa_stage_def)
  have 1: "getStageStatus True (JObj [(''visaStatus'', JStr ''yes'')]) flight_stage = ''pending''"
    using only_visa_reflects_progress[of True "JObj [(''visaStatus'', JStr ''yes'')]"] fl
    by blast
  have 2: "getStageStatus True (JObj [(''visaStatus'', JStr ''applied'')]) visa_stage
      = ''in-progress''"
    using only_visa_reflects_progress[of True "JObj [(''visaStatus'', JStr ''applied'')]"] vi
    by simp
  have 3: "getStageStatus True (JObj [(''visaStatus'', JStr ''yes'')]) visa_stage = ''completed''"
    using only_visa_reflects_progress[of True "JObj [(''visaStatus'', JStr ''yes'')]"] vi
    by simp
  have 4: "getStageStatus False (JObj [(''visaStatus'', JStr ''yes'')]) visa_stage = ''pending''"
    by (simp add: getStageStatus_def)
  have 5: "getStageStatus True JNull visa_stage = ''pending''"
    by (simp add: getStageStatus_def visa_stage_def)
  from fl vi 1 2 3 4 5 show ?thesis by simp
qed

section \<open>Properties of the dashboard statistics\<close>

subsection \<open>Rounding to a double\<close>

lemma bit_length_0: "bit_length 0 = 0"
  by (simp add: bit_length.simps)

lemma bit_length_1: "bit_length (Suc 0) = Suc 0"
  by (simp add: bit_length.simps[of "Suc 0"] bit_length_0)

lemma bit_length_upper: "n < 2 ^ bit_length n"
proof (induction n rule: bit_length.induct)
  case (1 n)
  show ?case
  proof (cases "n = 0")
    case True
    then show ?thesis by (simp add: bit_length.simps)
  next
    case False
    with 1 have "n div 2 < 2 ^ bit_length (n div 2)" by simp
    then have "n < 2 * 2 ^ bit_length (n div 2)" by linarith
    with False show ?thesis by (simp add: bit_length.simps[of n])
  qed
qed

lemma bit_length_lower: "0 < n \<Longrightarrow> 2 ^ bit_length n \<le> 2 * n"
proof (induction n rule: bit_length.induct)
  case (1 n)
  then have n: "n \<noteq> 0" by simp
  show ?case
  proof (cases "n div 2 = 0")
    case True
    with n have "n = 1" by linarith
    then show ?thesis by (simp add: bit_length_1)
  next
    case False
    with 1 n have "2 ^ bit_length (n div 2) \<le> 2 * (n div 2)" by simp
    also have "\<dots> \<le> n" by simp
    finally show ?thesis using n by (simp add: bit_length.simps[of n])
  qed
qed

lemma scaled_positive: "0 < d \<Longrightarrow> 0 < snd (scaled n d s)"
  by (simp add: scaled_def)

lemma scaled_value:
  "0 < d \<Longrightarrow> real (fst (scaled n d s)) / real (snd (scaled n d s))
     = real n / real d * 2 powr real_of_int s"
proof (cases "0 \<le> s")
  case True
  then have "2 powr real_of_int s = (2::real) ^ nat s"
    by (simp add: powr_real_of_int)
  with True show ?thesis by (simp add: scaled_def)
next
  case False
  then have "2 powr real_of_int s = 1 / (2::real) ^ nat (- s)"
    by (simp add: powr_real_of_int inverse_eq_divide)
  with False show ?thesis by (simp add: scaled_def)
qed

lemma round_half_even_near:
  assumes "0 < d"
  shows "\<bar>real (round_half_even n d) - real n / real d\<bar> \<le> 1 / 2"
proof -
  define q r where "q = n div d" and "r = n mod d"
  have n: "real n = real q * real d + real r"
    unfolding q_def r_def by (metis of_nat_add of_nat_mult div_mult_mod_eq)
  have r: "r < d" unfolding r_def using assms by simp
  have frac: "real n / real d = real q + real r / real d"
    using assms by (simp add: n field_simps)
  have rd: "0 \<le> real r / real d" "real r / real d < 1"
    using r assms by simp_all
  consider "2 * r < d" | "d < 2 * r" | "2 * r = d" by linarith
  then show ?thesis
  proof cases
    case 1
    then have "real r / real d < 1 / 2" using assms by (simp add: field_simps)
    moreover have "round_half_even n d = q"
      using 1 by (simp add: round_half_even_def Let_def q_def r_def)
    ultimately show ?thesis using rd by (simp add: frac)
  next
    case 2
    then have "1 / 2 < real r / real d" using assms by (simp add: field_simps)
    moreover have "round_half_even n d = q + 1"
      using 2 by (simp add: round_half_even_def Let_def q_def r_def)
    ultimately show ?thesis using rd by (simp add: frac)
  next
    case 3
    then have half: "real r / real d = 1 / 2" using assms by (simp add: field_simps)
    have v: "real n / real d = real q + 1 / 2"
      by (simp only: frac half)
    have alt: "round_half_even n d = q \<or> round_half_even n d = q + 1"
      using 3 by (simp add: round_half_even_def Let_def q_def r_def)
    from alt show ?thesis
    proof
      assume "round_half_even n d = q"
      then show ?thesis by (simp add: v)
    next
      assume "round_half_even n d = q + 1"
      then show ?thesis by (simp add: v)
    qed
  qed
qed


lemma scaled_shift_down:
  assumes "0 < d"
  shows "real (fst (scaled n d (s - 1))) / real (snd (scaled n d (s - 1)))
     = real (fst (scaled n d s)) / real (snd (scaled n d s)) / 2"
proof -
  have h: "2 powr real_of_int (s - 1) = 2 powr real_of_int s / (2::real)"
    by (simp add: powr_diff)
  show ?thesis
    by (simp only: scaled_value[OF assms] h times_divide_eq_right)
qed

lemma scaled_first_guess:
  assumes "0 < n" "0 < d"
  shows "2 ^ 52 \<le> real n / real d
            * 2 powr real_of_int (53 + int (bit_length d) - int (bit_length n))"
proof -
  define A where "A = (2::real) ^ bit_length d"
  define B where "B = (2::real) ^ bit_length n"
  define C where "C = (2::real) ^ 52"
  have pos: "0 < A" "0 < B" "0 < C" by (simp_all add: A_def B_def C_def)
  have pw: "2 powr real_of_int (53 + int (bit_length d) - int (bit_length n))
      = 2 * C * A / B"
    by (simp add: powr_add powr_diff powr_realpow A_def B_def C_def)
  have n: "B \<le> 2 * real n"
    unfolding B_def using bit_length_lower[OF assms(1)]
    by (metis of_nat_le_iff of_nat_mult of_nat_numeral of_nat_power)
  have d: "real d \<le> A"
    unfolding A_def using bit_length_upper[of d]
    by (metis less_imp_le of_nat_le_iff of_nat_numeral of_nat_power)
  have "real d * B \<le> A * (2 * real n)"
    using n d pos assms by (intro mult_mono) simp_all
  then have "C * (real d * B) \<le> C * (A * (2 * real n))"
    using pos by (intro mult_left_mono) simp_all
  then have "C \<le> real n / real d * (2 * C * A / B)"
    using pos assms by (simp add: field_simps)
  then show ?thesis by (simp only: pw flip: C_def)
qed

lemma round_double_accuracy:
  assumes "0 < n" "0 < d"
  shows "\<exists>m k. round_double n d e = Num m k
           \<and> \<bar>real m * 2 powr real_of_int k - real n / real d * 2 powr real_of_int e\<bar>
               \<le> real n / real d * 2 powr real_of_int e / 2 ^ 53"
proof -
  define s0 where "s0 = 53 + int (bit_length d) - int (bit_length n)"
  define s where "s = (if snd (scaled n d s0) * 2 ^ 53 \<le> fst (scaled n d s0) then s0 - 1 else s0)"
  define N D where "N = fst (scaled n d s)" and "D = snd (scaled n d s)"
  define q where "q = real N / real D"
  define m where "m = round_half_even N D"
  have rd: "round_double n d e = Num m (e - s)"
    by (simp add: round_double_def Let_def s0_def s_def N_def D_def m_def split: prod.splits)
  have D: "0 < D" unfolding D_def by (rule scaled_positive[OF assms(2)])
  have qv: "q = real n / real d * 2 powr real_of_int s"
    unfolding q_def N_def D_def by (rule scaled_value[OF assms(2)])
  have big: "2 ^ 52 \<le> q"
  proof (cases "snd (scaled n d s0) * 2 ^ 53 \<le> fst (scaled n d s0)")
    case True
    then have s: "s = s0 - 1" by (simp add: s_def)
    have D0: "0 < real (snd (scaled n d s0))"
      using scaled_positive[OF assms(2), of n s0] by simp
    from True have "real (snd (scaled n d s0)) * 2 ^ 53 \<le> real (fst (scaled n d s0))"
      by (metis of_nat_le_iff of_nat_mult of_nat_numeral of_nat_power)
    then have "2 ^ 53 \<le> real (fst (scaled n d s0)) / real (snd (scaled n d s0))"
      using D0 by (simp add: pos_le_divide_eq mult.commute)
    then show ?thesis
      unfolding q_def N_def D_def s scaled_shift_down[OF assms(2)] by simp
  next
    case False
    then have "s = s0" by (simp add: s_def)
    then show ?thesis
      unfolding qv s0_def using scaled_first_guess[OF assms] by simp
  qed
  have near: "\<bar>real m - q\<bar> \<le> q / 2 ^ 53"
  proof -
    have "\<bar>real m - q\<bar> \<le> 1 / 2"
      unfolding m_def q_def by (rule round_half_even_near[OF D])
    also have "1 / 2 \<le> q / 2 ^ 53" using big by simp
    finally show ?thesis .
  qed
  let ?P = "2 powr real_of_int (e - s)"
  have P: "0 < ?P" by simp
  have x: "q * ?P = real n / real d * 2 powr real_of_int e"
    by (simp add: qv powr_diff)
  have "\<bar>real m * ?P - q * ?P\<bar> = \<bar>real m - q\<bar> * ?P"
    by (simp add: abs_mult flip: left_diff_distrib)
  also have "\<dots> \<le> q / 2 ^ 53 * ?P"
    using near P by (intro mult_right_mono) simp_all
  finally have "\<bar>real m * ?P - q * ?P\<bar> \<le> q * ?P / 2 ^ 53" by simp
  with rd show ?thesis unfolding x by blast
qed


lemma js_divide_accuracy:
  assumes "0 < b"
  shows "\<exists>m k. js_divide a b = Num m k
           \<and> \<bar>real m * 2 powr real_of_int k - real a / real b\<bar> \<le> real a / real b / 2 ^ 53"
proof (cases "a = 0")
  case True
  with assms show ?thesis by (simp add: js_divide_def)
next
  case False
  then have "0 < a" by simp
  from round_double_accuracy[OF this assms, of 0] False assms show ?thesis
    by (simp add: js_divide_def)
qed

lemma js_times_accuracy:
  "\<exists>m' k'. js_times (Num m k) c = Num m' k'
     \<and> \<bar>real m' * 2 powr real_of_int k' - real m * 2 powr real_of_int k * real c\<bar>
         \<le> real m * 2 powr real_of_int k * real c / 2 ^ 53"
proof (cases "m * c = 0")
  case True
  then have "real m * real c = 0" by (metis of_nat_0 of_nat_mult)
  then have z: "real m * 2 powr real_of_int k * real c = 0" by auto
  have "js_times (Num m k) c = Num 0 0
     \<and> \<bar>real 0 * 2 powr real_of_int 0 - real m * 2 powr real_of_int k * real c\<bar>
         \<le> real m * 2 powr real_of_int k * real c / 2 ^ 53"
    using True by (simp add: z)
  then show ?thesis by blast
next
  case False
  then have "0 < m * c" by simp
  from round_double_accuracy[OF this zero_less_one, of k] obtain m' k'
    where r: "round_double (m * c) 1 k = Num m' k'"
      and b: "\<bar>real m' * 2 powr real_of_int k' - real (m * c) / real 1 * 2 powr real_of_int k\<bar>
               \<le> real (m * c) / real 1 * 2 powr real_of_int k / 2 ^ 53"
    by blast
  have e: "real (m * c) / real 1 * 2 powr real_of_int k = real m * 2 powr real_of_int k * real c"
    by simp
  from b have "\<bar>real m' * 2 powr real_of_int k' - real m * 2 powr real_of_int k * real c\<bar>
               \<le> real m * 2 powr real_of_int k * real c / 2 ^ 53"
    by (simp only: e)
  moreover have "js_times (Num m k) c = Num m' k'" using False r by simp
  ultimately show ?thesis by blast
qed

lemma two_roundings:
  fixes x x1 p :: real
  assumes "0 \<le> x"
    and "\<bar>x1 - x\<bar> \<le> x / 2 ^ 53"
    and "\<bar>p - x1 * 100\<bar> \<le> x1 * 100 / 2 ^ 53"
  shows "\<bar>p - 100 * x\<bar> \<le> 100 * x / 2 ^ 51"
proof -
  define u where "u = 1 / (2::real) ^ 53"
  define w where "w = x * u"
  have u: "0 < u" "u \<le> 1" by (simp_all add: u_def)
  have w: "0 \<le> w" "w \<le> x"
    using assms(1) u mult_left_mono[of u 1 x] by (simp_all add: w_def)
  have a1: "\<bar>x1 - x\<bar> \<le> w" using assms(2) by (simp add: w_def u_def)
  then have "x1 \<le> 2 * x" using w by linarith
  then have "x1 * u \<le> (2 * x) * u" using u by (intro mult_right_mono) simp_all
  then have "x1 * u \<le> 2 * w" by (simp add: w_def)
  moreover have "\<bar>p - x1 * 100\<bar> \<le> 100 * (x1 * u)" using assms(3) by (simp add: u_def)
  ultimately have a2: "\<bar>p - x1 * 100\<bar> \<le> 200 * w" by linarith
  from a1 a2 have "\<bar>p - 100 * x\<bar> \<le> 300 * w" by linarith
  with w have "\<bar>p - 100 * x\<bar> \<le> 400 * w" by linarith
  then show ?thesis by (simp add: w_def u_def)
qed

lemma overallProgress_accuracy:
  assumes "events \<noteq> []"
  shows "\<exists>m k. overallProgress events = Num m k
           \<and> \<bar>real m * 2 powr real_of_int k
                - 100 * (real (completedTasks events) / real (totalTasks events))\<bar>
               \<le> 100 * (real (completedTasks events) / real (totalTasks events)) / 2 ^ 51"
proof -
  have t: "0 < totalTasks events" using assms by (simp add: totalTasks_def)
  from js_divide_accuracy[OF t, of "completedTasks events"] obtain m1 k1
    where q: "js_divide (completedTasks events) (totalTasks events) = Num m1 k1"
      and q1: "\<bar>real m1 * 2 powr real_of_int k1
                 - real (completedTasks events) / real (totalTasks events)\<bar>
               \<le> real (completedTasks events) / real (totalTasks events) / 2 ^ 53"
    by blast
  from js_times_accuracy[of m1 k1 100] obtain m k
    where p: "js_times (Num m1 k1) 100 = Num m k"
      and p1: "\<bar>real m * 2 powr real_of_int k - real m1 * 2 powr real_of_int k1 * 100\<bar>
               \<le> real m1 * 2 powr real_of_int k1 * 100 / 2 ^ 53"
    by auto
  have "0 \<le> real (completedTasks events) / real (totalTasks events)" by simp
  from two_roundings[OF this q1 p1] q p show ?thesis
    by (simp add: overallProgress_def)
qed

lemma Math_round_value:
  "\<exists>j. Math_round (Num m k) = Num j 0
     \<and> int j = \<lfloor>real m * 2 powr real_of_int k + 1 / 2\<rfloor>"
proof (cases "0 \<le> k")
  case True
  then have v: "real m * 2 powr real_of_int k = real (m * 2 ^ nat k)"
    by (simp add: powr_real_of_int)
  have "\<lfloor>real (m * 2 ^ nat k) + 1 / 2\<rfloor> = int (m * 2 ^ nat k)"
    by (intro floor_unique) simp_all
  then have "\<lfloor>real m * 2 powr real_of_int k + 1 / 2\<rfloor> = int (m * 2 ^ nat k)"
    by (simp only: v)
  with True show ?thesis by simp
next
  case False
  define D where "D = (2::nat) ^ nat (- k)"
  have D: "0 < D" by (simp add: D_def)
  from False have "2 powr real_of_int k = 1 / real D"
    by (simp add: powr_real_of_int D_def inverse_eq_divide)
  then have "real m * 2 powr real_of_int k + 1 / 2 = real (2 * m + D) / real (2 * D)"
    using D by (simp add: field_simps)
  then have "\<lfloor>real m * 2 powr real_of_int k + 1 / 2\<rfloor> = int ((2 * m + D) div (2 * D))"
    by (simp only: floor_divide_of_nat_eq)
  with False show ?thesis by (simp add: D_def)
qed

subsection \<open>The statistics\<close>

lemma counts_one_of_three:
  "completedTasks one_of_three = 1" "totalTasks one_of_three = 3"
  "upcomingDeadlines one_of_three = 2"
  by (simp_all add: completedTasks_def totalTasks_def upcomingDeadlines_def one_of_three_def
      completed_event_def critical_event_def)

lemma counts_twenty_three_of_forty:
  "completedTasks twenty_three_of_forty = 23" "totalTasks twenty_three_of_forty = 40"
  by (simp_all add: completedTasks_def totalTasks_def twenty_three_of_forty_def
      completed_event_def critical_event_def)

lemma bit_length_pos: "0 < n \<Longrightarrow> bit_length n = Suc (bit_length (n div 2))"
  by (simp add: bit_length.simps[of n])

lemma double_one_of_three: "js_times (js_divide 1 3) 100 = Num 4691249611844266 (- 47)"
  by (simp add: js_divide_def round_double_def scaled_def round_half_even_def Let_def
      bit_length_pos bit_length_0)

lemma shown_one_of_three: "Math_round (Num 4691249611844266 (- 47)) = Num 33 0"
  by simp

lemma double_twenty_three_of_forty:
  "js_times (js_divide 23 40) 100 = Num 8092405580431359 (- 47)"
  by (simp add: js_divide_def round_double_def scaled_def round_half_even_def Let_def
      bit_length_pos bit_length_0)

lemma shown_twenty_three_of_forty: "Math_round (Num 8092405580431359 (- 47)) = Num 57 0"
  by simp

lemma overallProgress_empty: "overallProgress [] = NaN"
  by (simp add: overallProgress_def js_divide_def completedTasks_def totalTasks_def)

lemma completedTasks_card:
  "completedTasks events = card {i. i < length events \<and> status (events ! i) = ''completed''}"
  by (simp add: completedTasks_def length_filter_conv_card)

text \<open>
  Claim C10 as stated does not hold: the overall progress that the page displays is not
  \<open>100\<close> times the number of completed events divided by the number of events. With
  one event of three completed the page
  displays \<open>33\<close>, not \<open>100 / 3\<close>. With 23 events of 40 completed the double that
  \<open>overallProgress\<close> holds is \<open>8092405580431359 / 2 ^ 47\<close>, just below \<open>57.5\<close>, and
  the page displays \<open>57\<close>.
\<close>

theorem displayed_progress_not_exact:
  "overallProgressShown one_of_three = Num 33 0
   \<and> number_value (overallProgressShown one_of_three)
       \<noteq> Some (100 * real (completedTasks one_of_three) / real (totalTasks one_of_three))
   \<and> overallProgress twenty_three_of_forty = Num 8092405580431359 (- 47)
   \<and> number_value (overallProgress twenty_three_of_forty)
       \<noteq> Some (100 * real (completedTasks twenty_three_of_forty)
                 / real (totalTasks twenty_three_of_forty))
   \<and> overallProgressShown twenty_three_of_forty = Num 57 0"
proof -
  have a: "overallProgress one_of_three = Num 4691249611844266 (- 47)"
    by (simp only: overallProgress_def counts_one_of_three double_one_of_three)
  then have b: "overallProgressShown one_of_three = Num 33 0"
    by (simp only: overallProgressShown_def shown_one_of_three)
  have c: "overallProgress twenty_three_of_forty = Num 8092405580431359 (- 47)"
    by (simp only: overallProgress_def counts_twenty_three_of_forty
        double_twenty_three_of_forty)
  then have d: "overallProgressShown twenty_three_of_forty = Num 57 0"
    by (simp only: overallProgressShown_def shown_twenty_three_of_forty)
  have e: "number_value (Num 33 0) \<noteq> Some (100 * real 1 / real 3)"
    by simp
  have "(2::real) powr real_of_int (- 47) = 1 / 2 ^ 47"
    by (simp add: powr_minus inverse_eq_divide)
  then have f: "number_value (Num 8092405580431359 (- 47)) \<noteq> Some (100 * real 23 / real 40)"
    by simp
  from a b c d e f show ?thesis
    by (simp only: counts_one_of_three counts_twenty_three_of_forty) simp
qed




text \<open>
  Claim C10, amended. The critical-deadline count that the page displays is the number
  of events of the timeline whose status is \<open>upcoming\<close> and whose priority is
  \<open>critical\<close>. On a timeline that is not empty the overall progress is a double within a
  relative error of \<open>2 ^ -51\<close> of \<open>100\<close> times the number of events whose status is
  \<open>completed\<close>, divided by the number of events, and the page displays it through
  \<open>Math.round\<close>, as the whole number nearest to that double. The division has no guard:
  on the empty timeline the overall progress is \<open>NaN\<close>, displayed as such, and it is a
  number exactly when the timeline is not empty.
\<close>

theorem dashboard_statistics_rounded:
  "upcomingDeadlines events =
     card {i. i < length events \<and> status (events ! i) = ''upcoming''
            \<and> priority (events ! i) = ''critical''}
   \<and> (events \<noteq> [] \<longrightarrow>
        (\<exists>m k j. overallProgress events = Num m k
           \<and> \<bar>real m * 2 powr real_of_int k
                - 100 * (real (card {i. i < length events \<and> status (events ! i) = ''completed''})
                         / real (length events))\<bar>
               \<le> 100 * (real (card {i. i < length events \<and> status (events ! i) = ''completed''})
                         / real (length events)) / 2 ^ 51
           \<and> overallProgressShown events = Num j 0
           \<and> int j = \<lfloor>real m * 2 powr real_of_int k + 1 / 2\<rfloor>))
   \<and> (events = [] \<longrightarrow> overallProgress events = NaN \<and> overallProgressShown events = NaN)
   \<and> ((\<exists>m k. overallProgress events = Num m k) \<longleftrightarrow> events \<noteq> [])"
proof (intro conjI impI)
  show "upcomingDeadlines events =
     card {i. i < length events \<and> status (events ! i) = ''upcoming''
            \<and> priority (events ! i) = ''critical''}"
    by (simp add: upcomingDeadlines_def length_filter_conv_card)
next
  assume ne: "events \<noteq> []"
  from overallProgress_accuracy[OF ne] obtain m k
    where p: "overallProgress events = Num m k"
      and acc: "\<bar>real m * 2 powr real_of_int k
                - 100 * (real (completedTasks events) / real (totalTasks events))\<bar>
               \<le> 100 * (real (completedTasks events) / real (totalTasks events)) / 2 ^ 51"
    by blast
  from Math_round_value[of m k] obtain j
    where j: "Math_round (Num m k) = Num j 0"
      "int j = \<lfloor>real m * 2 powr real_of_int k + 1 / 2\<rfloor>"
    by blast
  from acc have acc':
    "\<bar>real m * 2 powr real_of_int k
       - 100 * (real (card {i. i < length events \<and> status (events ! i) = ''completed''})
                / real (length events))\<bar>
      \<le> 100 * (real (card {i. i < length events \<and> status (events ! i) = ''completed''})
                / real (length events)) / 2 ^ 51"
    by (simp only: completedTasks_card totalTasks_def)
  from p j(1) have "overallProgressShown events = Num j 0"
    by (simp add: overallProgressShown_def)
  with p acc' j(2)
  show "\<exists>m k j. overallProgress events = Num m k
           \<and> \<bar>real m * 2 powr real_of_int k
                - 100 * (real (card {i. i < length events \<and> status (events ! i) = ''completed''})
                         / real (length events))\<bar>
               \<le> 100 * (real (card {i. i < length events \<and> status (events ! i) = ''completed''})
                         / real (length events)) / 2 ^ 51
           \<and> overallProgressShown events = Num j 0
           \<and> int j = \<lfloor>real m * 2 powr real_of_int k + 1 / 2\<rfloor>"
    by blast
next
  assume "events = []"
  then show "overallProgress events = NaN" by (simp add: overallProgress_empty)
next
  assume "events = []"
  then show "overallProgressShown events = NaN"
    by (simp add: overallProgressShown_def overallProgress_empty)
next
  show "(\<exists>m k. overallProgress events = Num m k) \<longleftrightarrow> events \<noteq> []"
  proof
    assume "\<exists>m k. overallProgress events = Num m k"
    then show "events \<noteq> []" by (auto simp: overallProgress_empty)
  next
    assume "events \<noteq> []"
    from overallProgress_accuracy[OF this] show "\<exists>m k. overallProgress events = Num m k"
      by blast
  qed
qed

theorem dashboard_statistics_rounded_witness:
  "one_of_three \<noteq> []
   \<and> upcomingDeadlines one_of_three = 2
   \<and> overallProgress one_of_three = Num 4691249611844266 (- 47)
   \<and> overallProgressShown one_of_three = Num 33 0
   \<and> (\<exists>m k j. overallProgress one_of_three = Num m k
         \<and> overallProgressShown one_of_three = Num j 0
         \<and> int j = \<lfloor>real m * 2 powr real_of_int k + 1 / 2\<rfloor>)
   \<and> overallProgress ([] :: TimelineEvent list) = NaN
   \<and> overallProgressShown ([] :: TimelineEvent list) = NaN"
proof -
  have ne: "one_of_three \<noteq> []" by (simp add: one_of_three_def)
  have p: "overallProgress one_of_three = Num 4691249611844266 (- 47)"
    by (simp only: overallProgress_def counts_one_of_three double_one_of_three)
  then have s: "overallProgressShown one_of_three = Num 33 0"
    by (simp only: overallProgressShown_def shown_one_of_three)
  have ex: "\<exists>m k j. overallProgress one_of_three = Num m k
         \<and> overallProgressShown one_of_three = Num j 0
         \<and> int j = \<lfloor>real m * 2 powr real_of_int k + 1 / 2\<rfloor>"
    using dashboard_statistics_rounded[of one_of_three] ne by blast
  have e: "overallProgress ([] :: TimelineEvent list) = NaN
      \<and> overallProgressShown ([] :: TimelineEvent list) = NaN"
    using dashboard_statistics_rounded[of "[] :: TimelineEvent list"] by simp
  from ne p s ex e counts_one_of_three(3) show ?thesis by simp
qed

section \<open>Properties of the Fact Merger\<close>

lemma fst_merge_fact: "fst (merge_fact (facts, res) c) = store_step facts c"
  by (cases c) (simp add: merge_fact_def store_step_def)

lemma fst_foldl_merge_fact: "fst (foldl merge_fact (facts, res) cs) = foldl store_step facts cs"
proof (induction cs arbitrary: facts res)
  case Nil
  show ?case by simp
next
  case (Cons c cs)
  obtain facts' res' where st: "merge_fact (facts, res) c = (facts', res')"
    by (cases "merge_fact (facts, res) c")
  then have "facts' = store_step facts c"
    using fst_merge_fact[of facts res c] by simp
  with st Cons.IH[of facts' res'] show ?case by simp
qed

lemma fst_Merge: "fst (Merge facts cs) = foldl store_step facts cs"
  by (simp add: Merge_def fst_foldl_merge_fact)

lemma merge_sequence_concat: "merge_sequence facts batches = foldl store_step facts (concat batches)"
  unfolding merge_sequence_def
  by (induction batches arbitrary: facts) (simp_all add: fst_Merge)

lemma store_step_other: "fst c \<noteq> k \<Longrightarrow> store_step facts c k = facts k"
  by (simp add: store_step_def)

lemma store_step_time:
  "map_option observedAt (store_step facts (k, cand) k) =
     Some (case facts k of None \<Rightarrow> observedAt cand | Some f \<Rightarrow> max (observedAt f) (observedAt cand))"
  by (auto simp: store_step_def accepts_def split: option.splits)

lemma store_step_mono:
  assumes "facts k = Some f"
  shows "\<exists>g. store_step facts c k = Some g \<and> observedAt f \<le> observedAt g"
  using assms by (cases c) (auto simp: store_step_def accepts_def)

lemma foldl_store_step_mono:
  "facts k = Some f \<Longrightarrow> \<exists>g. foldl store_step facts cs k = Some g \<and> observedAt f \<le> observedAt g"
proof (induction cs arbitrary: facts f)
  case Nil
  then show ?case by simp
next
  case (Cons c cs)
  from store_step_mono[of facts k f c, OF Cons.prems] obtain g
    where g: "store_step facts c k = Some g" "observedAt f \<le> observedAt g" by blast
  from Cons.IH[of "store_step facts c" g, OF g(1)] obtain h
    where "foldl store_step (store_step facts c) cs k = Some h" "observedAt g \<le> observedAt h"
    by blast
  with g(2) show ?case by auto
qed


lemma Max_insert_max:
  fixes a b :: int
  assumes "finite S"
  shows "Max (insert (max a b) S) = Max (insert a (insert b S))"
proof (cases "S = {}")
  case True
  then show ?thesis by (simp add: max.commute)
next
  case False
  with assms show ?thesis by (simp add: max.assoc)
qed

lemma latest_from_stored:
  "facts k = Some f \<Longrightarrow>
     map_option observedAt (foldl store_step facts cs k)
       = Some (Max (insert (observedAt f) (set (times_for k cs))))"
proof (induction cs arbitrary: facts f)
  case Nil
  then show ?case by (simp add: times_for_def)
next
  case (Cons c cs)
  obtain k' cand where c: "c = (k', cand)" by (cases c)
  show ?case
  proof (cases "k' = k")
    case False
    then have "store_step facts c k = Some f"
      using Cons.prems by (simp add: c store_step_other)
    from Cons.IH[of "store_step facts c" f, OF this] False show ?thesis
      by (simp add: c times_for_def)
  next
    case True
    have "map_option observedAt (store_step facts c k)
            = Some (max (observedAt f) (observedAt cand))"
      using store_step_time[of facts k cand] Cons.prems by (simp add: c True)
    then obtain g where g: "store_step facts c k = Some g"
      and og: "observedAt g = max (observedAt f) (observedAt cand)" by auto
    from Cons.IH[of "store_step facts c" g, OF g] og True show ?thesis
      by (simp add: c times_for_def Max_insert_max)
  qed
qed

lemma latest_from_absent:
  "facts k = None \<Longrightarrow>
     map_option observedAt (foldl store_step facts cs k)
       = (if times_for k cs = [] then None else Some (Max (set (times_for k cs))))"
proof (induction cs arbitrary: facts)
  case Nil
  then show ?case by (simp add: times_for_def)
next
  case (Cons c cs)
  obtain k' cand where c: "c = (k', cand)" by (cases c)
  show ?case
  proof (cases "k' = k")
    case False
    then have "store_step facts c k = None"
      using Cons.prems by (simp add: c store_step_other)
    from Cons.IH[of "store_step facts c", OF this] False show ?thesis
      by (simp add: c times_for_def)
  next
    case True
    have "store_step facts c k = Some cand"
      using Cons.prems by (simp add: c True store_step_def accepts_def)
    from latest_from_stored[of "store_step facts c" k cand cs, OF this] True show ?thesis
      by (simp add: c times_for_def)
  qed
qed

lemma observed_times_alt:
  "observed_times facts batches k =
     (case facts k of None \<Rightarrow> [] | Some f \<Rightarrow> [observedAt f]) @ times_for k (concat batches)"
  by (simp add: observed_times_def times_for_def)

lemma merge_sequence_latest:
  "map_option observedAt (merge_sequence facts batches k)
     = (if observed_times facts batches k = [] then None
        else Some (Max (set (observed_times facts batches k))))"
proof (cases "facts k")
  case None
  then show ?thesis
    using latest_from_absent[of facts k "concat batches"]
    by (simp add: merge_sequence_concat observed_times_alt)
next
  case (Some f)
  then show ?thesis
    using latest_from_stored[of facts k f "concat batches"]
    by (simp add: merge_sequence_concat observed_times_alt)
qed

lemma merge_sequence_append:
  "merge_sequence facts (batches @ later) = merge_sequence (merge_sequence facts batches) later"
  by (simp add: merge_sequence_def)

text \<open>
  Claim C4. For every sequence of fact merges into a journey's FactSet and every key: the
  stored FactSet holds at most one fact for the key; a fact stored for the key after
  some of the merges is never followed, after further merges, by an older stored fact
  for that key; a single candidate replaces the stored fact of its key only if its
  \<open>observedAt\<close> is not older, and a candidate that is older is rejected, reported, and
  leaves the FactSet as it is; and the \<open>observedAt\<close> stored for the key at the end is the
  latest of the times the key has seen, whatever the order in which they arrived.
\<close>

theorem fact_merge_last_writer_by_time:
  "(\<forall>f g. merge_sequence facts batches k = Some f \<and> merge_sequence facts batches k = Some g
       \<longrightarrow> f = g)
   \<and> (\<forall>f. merge_sequence facts batches k = Some f \<longrightarrow>
         (\<exists>g. merge_sequence facts (batches @ later) k = Some g
              \<and> observedAt f \<le> observedAt g))
   \<and> (\<forall>f res c. facts k = Some f \<and> fst (merge_fact (facts, res) c) k \<noteq> Some f \<longrightarrow>
         fst c = k \<and> fst (merge_fact (facts, res) c) k = Some (snd c)
         \<and> observedAt f \<le> observedAt (snd c))
   \<and> (\<forall>f res (cand :: Fact). facts k = Some f \<and> observedAt cand < observedAt f \<longrightarrow>
         merge_fact (facts, res) (k, cand) = (facts, res\<lparr>rejected := rejected res @ [k]\<rparr>))
   \<and> map_option observedAt (merge_sequence facts batches k)
       = (if observed_times facts batches k = [] then None
          else Some (Max (set (observed_times facts batches k))))"
proof (intro conjI allI impI)
  fix f g
  assume "merge_sequence facts batches k = Some f \<and> merge_sequence facts batches k = Some g"
  then show "f = g" by auto
next
  fix f
  assume "merge_sequence facts batches k = Some f"
  then show "\<exists>g. merge_sequence facts (batches @ later) k = Some g
      \<and> observedAt f \<le> observedAt g"
    unfolding merge_sequence_append
    by (simp add: merge_sequence_concat[of _ later] foldl_store_step_mono)
next
  fix f res c
  assume "facts k = Some f \<and> fst (merge_fact (facts, res) c) k \<noteq> Some f"
  then show "fst c = k" "fst (merge_fact (facts, res) c) k = Some (snd c)"
    "observedAt f \<le> observedAt (snd c)"
    by (auto simp: fst_merge_fact store_step_def accepts_def split: if_splits)
next
  fix f res and cand :: Fact
  assume "facts k = Some f \<and> observedAt cand < observedAt f"
  then show "merge_fact (facts, res) (k, cand)
      = (facts, res\<lparr>rejected := rejected res @ [k]\<rparr>)"
    by (simp add: merge_fact_def accepts_def)
next
  show "map_option observedAt (merge_sequence facts batches k)
       = (if observed_times facts batches k = [] then None
          else Some (Max (set (observed_times facts batches k))))"
    by (rule merge_sequence_latest)
qed

theorem fact_merge_last_writer_by_time_witness:
  "merge_sequence (Map.empty(''visa_type'' \<mapsto> student_fact)) [] ''visa_type''
     = Some student_fact
   \<and> observedAt work_fact < observedAt student_fact
   \<and> merge_sequence (Map.empty(''visa_type'' \<mapsto> student_fact))
        [[(''visa_type'', work_fact)]] ''visa_type'' = Some student_fact
   \<and> rejected (snd (Merge (Map.empty(''visa_type'' \<mapsto> student_fact))
        [(''visa_type'', work_fact)])) = [''visa_type'']
   \<and> changedKeys (snd (Merge (Map.empty(''visa_type'' \<mapsto> student_fact))
        [(''visa_type'', work_fact)])) = {}"
proof -
  let ?facts = "Map.empty(''visa_type'' \<mapsto> student_fact)"
  let ?res = "\<lparr>changedKeys = {}, rejected = []\<rparr>"
  have stored: "?facts ''visa_type'' = Some student_fact" by simp
  have start: "merge_sequence ?facts [] ''visa_type'' = Some student_fact"
    by (simp add: merge_sequence_def)
  have older: "observedAt work_fact < observedAt student_fact"
    by (simp add: work_fact_def student_fact_def)
  have step: "merge_fact (?facts, ?res) (''visa_type'', work_fact)
      = (?facts, ?res\<lparr>rejected := rejected ?res @ [''visa_type'']\<rparr>)"
    using fact_merge_last_writer_by_time[of ?facts "[]" "''visa_type''" "[]"] stored older
    by blast
  have m: "Merge ?facts [(''visa_type'', work_fact)]
      = (?facts, \<lparr>changedKeys = {}, rejected = [''visa_type'']\<rparr>)"
    by (simp add: Merge_def step)
  then have "merge_sequence ?facts [[(''visa_type'', work_fact)]] ''visa_type''
      = Some student_fact"
    by (simp add: merge_sequence_def)
  with start older m show ?thesis by simp
qed

section \<open>Properties of the Reconciler\<close>

lemma no_edges_acyclic: "acyclic {}"
  by (simp add: acyclic_def)

lemma set_insert_at: "set (insert_at i x xs) = insert x (set xs)"
proof -
  have "set (take i xs) \<union> set (drop i xs) = set xs"
    by (metis append_take_drop_id set_append)
  then show ?thesis by (auto simp: insert_at_def)
qed

lemma foldl_insert_at_superset:
  "set acc \<subseteq> set (foldl (\<lambda>acc n. insert_at (place acc n) n acc) acc ns)"
proof (induction ns arbitrary: acc)
  case Nil
  show ?case by simp
next
  case (Cons n ns)
  have "set acc \<subseteq> set (insert_at (place acc n) n acc)"
    by (auto simp: set_insert_at)
  also have "\<dots> \<subseteq> set (foldl (\<lambda>acc n. insert_at (place acc n) n acc)
      (insert_at (place acc n) n acc) ns)"
    by (rule Cons.IH)
  finally show ?case by simp
qed

lemma find_None_iff_ids:
  "find (\<lambda>n. stepId n = x) ns = None \<longleftrightarrow> x \<notin> stepId ` set ns"
  by (auto simp: find_None_iff)

lemma completed_old_only_carried:
  assumes "s \<in> set old_steps" "step_status s = Completed" "stepId s \<notin> stepId ` set new_steps"
  shows "s \<in> set (List.map_filter (carry_over new_steps) old_steps)"
proof -
  have "carry_over new_steps s = Some s"
    using assms(2,3) find_None_iff_ids[of "stepId s" new_steps] by (simp add: carry_over_def)
  with assms(1) show ?thesis
    by (force simp: map_filter_def)
qed

lemma completed_old_only_in_merged_steps:
  assumes "s \<in> set old_steps" "step_status s = Completed" "stepId s \<notin> stepId ` set new_steps"
  shows "s \<in> set (merged_steps place old_steps new_steps)"
  unfolding merged_steps_def
  using completed_old_only_carried[OF assms]
    foldl_insert_at_superset[of "List.map_filter (carry_over new_steps) old_steps" place
      "new_only old_steps new_steps"]
  by (rule rev_subsetD)

lemma find_self:
  "distinct (map stepId ss) \<Longrightarrow> s \<in> set ss \<Longrightarrow> find (\<lambda>n. stepId n = stepId s) ss = Some s"
proof (induction ss)
  case Nil
  then show ?case by simp
next
  case (Cons a ss)
  then show ?case by (auto simp: image_iff)
qed

lemma merge_step_self: "merge_step (s :: TimelineStep) s = s"
  by (simp add: merge_step_def)

lemma carry_over_self:
  "distinct (map stepId ss) \<Longrightarrow> s \<in> set ss \<Longrightarrow> carry_over ss s = Some s"
  by (simp add: carry_over_def find_self merge_step_self)

lemma map_filter_Some_id: "(\<And>x. x \<in> set xs \<Longrightarrow> f x = Some x) \<Longrightarrow> List.map_filter f xs = xs"
  by (induction xs) (simp_all add: map_filter_simps)

lemma new_only_self: "new_only ss ss = []"
  by (simp add: new_only_def)

lemma merged_steps_self: "distinct (map stepId ss) \<Longrightarrow> merged_steps place ss ss = ss"
  by (simp add: merged_steps_def new_only_self map_filter_Some_id carry_over_self)

lemma trancl_Un_split:
  assumes sep: "Range A \<inter> Domain B = {}"
    and path: "(x, y) \<in> (A \<union> B)\<^sup>+"
  shows "(x, y) \<in> B\<^sup>+ \<or> (\<exists>z. (x, z) \<in> B\<^sup>* \<and> (z, y) \<in> A\<^sup>+)"
  using path
proof (induction rule: trancl_induct)
  case (base y)
  then show ?case by auto
next
  case (step y z)
  from step.IH show ?case
  proof
    assume xy: "(x, y) \<in> B\<^sup>+"
    from step.hyps(2) show ?thesis
    proof
      assume "(y, z) \<in> A"
      with xy show ?thesis by (meson r_into_trancl' trancl_into_rtrancl)
    next
      assume "(y, z) \<in> B"
      with xy show ?thesis by (meson trancl.trancl_into_trancl)
    qed
  next
    assume "\<exists>w. (x, w) \<in> B\<^sup>* \<and> (w, y) \<in> A\<^sup>+"
    then obtain w where w: "(x, w) \<in> B\<^sup>*" "(w, y) \<in> A\<^sup>+" by blast
    from w(2) have "y \<in> Range A"
      by (meson Range.intros tranclE)
    with sep have "y \<notin> Domain B" by blast
    with step.hyps(2) have "(y, z) \<in> A" by auto
    with w show ?thesis by (meson trancl.trancl_into_trancl)
  qed
qed

lemma acyclic_Un_separated:
  assumes "acyclic A" "acyclic B" "Range A \<inter> Domain B = {}"
  shows "acyclic (A \<union> B)"
proof (rule acyclicI, intro allI notI)
  fix x
  assume "(x, x) \<in> (A \<union> B)\<^sup>+"
  from trancl_Un_split[OF assms(3) this] show False
  proof
    assume "(x, x) \<in> B\<^sup>+"
    with assms(2) show False by (simp add: acyclic_def)
  next
    assume "\<exists>z. (x, z) \<in> B\<^sup>* \<and> (z, x) \<in> A\<^sup>+"
    then obtain z where z: "(x, z) \<in> B\<^sup>*" "(z, x) \<in> A\<^sup>+" by blast
    from z(2) have xr: "x \<in> Range A" by (meson Range.intros tranclE)
    show False
    proof (cases "x = z")
      case True
      with z(2) assms(1) show False by (simp add: acyclic_def)
    next
      case False
      with z(1) have "x \<in> Domain B" by (meson Domain.intros converse_rtranclE)
      with xr assms(3) show False by blast
    qed
  qed
qed

lemma set_foldl_insert_at:
  "set (foldl (\<lambda>acc n. insert_at (place acc n) n acc) acc ns) = set acc \<union> set ns"
  by (induction ns arbitrary: acc) (auto simp: set_insert_at)

lemma set_merged_steps:
  "set (merged_steps place old_steps new_steps) =
     set (List.map_filter (carry_over new_steps) old_steps)
     \<union> {n \<in> set new_steps. stepId n \<notin> stepId ` set old_steps}"
  by (auto simp: merged_steps_def set_foldl_insert_at new_only_def)

lemma step_edges_iff:
  "(a, d) \<in> step_edges ss \<longleftrightarrow> (\<exists>s \<in> set ss. stepId s = a \<and> d \<in> dependsOn s)"
  unfolding step_edges_def by blast

lemma carry_over_edges:
  assumes "carry_over new_steps old = Some m" and "d \<in> dependsOn m"
  shows "(stepId m, d) \<in> step_edges new_steps
         \<or> (m = old \<and> stepId old \<notin> stepId ` set new_steps)"
proof (cases "find (\<lambda>n. stepId n = stepId old) new_steps")
  case None
  with assms(1) have "m = old" by (simp add: carry_over_def split: if_splits)
  with None show ?thesis by (simp add: find_None_iff_ids)
next
  case (Some n)
  then have n: "n \<in> set new_steps" "stepId n = stepId old"
    by (auto simp: find_Some_iff)
  from Some assms(1) have "m = merge_step old n" by (simp add: carry_over_def)
  then have "stepId m = stepId n" "dependsOn m = dependsOn n"
    using n(2) by (simp_all add: merge_step_def)
  with n(1) assms(2) have "(stepId m, d) \<in> step_edges new_steps"
    unfolding step_edges_iff by (intro bexI[of _ n]) simp_all
  then show ?thesis ..
qed

lemma step_edges_merged_steps:
  "step_edges (merged_steps place old_steps new_steps)
     \<subseteq> step_edges new_steps
       \<union> {e \<in> step_edges old_steps. fst e \<notin> stepId ` set new_steps}"
proof
  fix e
  assume "e \<in> step_edges (merged_steps place old_steps new_steps)"
  then obtain m d where m: "m \<in> set (merged_steps place old_steps new_steps)"
    and d: "d \<in> dependsOn m" and e: "e = (stepId m, d)"
    unfolding step_edges_def by blast
  from m consider
      (carried) old where "old \<in> set old_steps" "carry_over new_steps old = Some m"
    | (fresh) "m \<in> set new_steps"
    by (auto simp: set_merged_steps map_filter_def)
  then show "e \<in> step_edges new_steps
       \<union> {e \<in> step_edges old_steps. fst e \<notin> stepId ` set new_steps}"
  proof cases
    case carried
    from carry_over_edges[OF carried(2) d] show ?thesis
    proof
      assume "(stepId m, d) \<in> step_edges new_steps"
      with e show ?thesis by simp
    next
      assume "m = old \<and> stepId old \<notin> stepId ` set new_steps"
      moreover from this carried(1) d have "(stepId m, d) \<in> step_edges old_steps"
        unfolding step_edges_iff by (intro bexI[of _ m]) simp_all
      ultimately show ?thesis using e by simp
    qed
  next
    case fresh
    with d have "(stepId m, d) \<in> step_edges new_steps"
      unfolding step_edges_iff by (intro bexI[of _ m]) simp_all
    with e show ?thesis by simp
  qed
qed

lemma merged_steps_acyclic:
  assumes "acyclic (step_edges old_steps)" "acyclic (step_edges new_steps)"
    and "dependsOn_resolved new_steps"
  shows "acyclic (step_edges (merged_steps place old_steps new_steps))"
proof -
  let ?A = "step_edges new_steps"
  let ?B = "{e \<in> step_edges old_steps. fst e \<notin> stepId ` set new_steps}"
  have "Range ?A \<subseteq> stepId ` set new_steps"
    using assms(3) unfolding step_edges_def dependsOn_resolved_def list_all_iff by blast
  moreover have "Domain ?B \<inter> stepId ` set new_steps = {}" by auto
  ultimately have "Range ?A \<inter> Domain ?B = {}" by blast
  moreover have "acyclic ?B" by (rule acyclic_subset[OF assms(1)]) auto
  ultimately have "acyclic (?A \<union> ?B)"
    using assms(2) by (intro acyclic_Un_separated)
  then show ?thesis
    by (rule acyclic_subset[OF _ step_edges_merged_steps])
qed

lemma Reconcile_returns:
  assumes "acyclic (step_edges (steps oldTimeline))" "acyclic (step_edges (steps newTimeline))"
    and "dependsOn_resolved (steps newTimeline)"
  shows "Reconcile place oldTimeline newTimeline =
           Inr (newTimeline\<lparr>steps := merged_steps place (steps oldTimeline) (steps newTimeline)\<rparr>)"
  using merged_steps_acyclic[OF assms, of place] by (simp add: Reconcile_def)

text \<open>
  Claim C5. For every pair of timelines, a step that is present only in the old timeline
  and is completed is present in the reconciled timeline, still marked completed, also
  when the new timeline omits it. Reconcile returns such a timeline whenever the
  dependency graphs of both timelines are acyclic and the dependencies of the new one
  resolve; its only failure is the reported dependency cycle.
\<close>

theorem Reconcile_keeps_completed_history:
  assumes "s \<in> set (steps oldTimeline)"
    and "step_status s = Completed"
    and "stepId s \<notin> stepId ` set (steps newTimeline)"
  shows "(\<forall>merged. Reconcile place oldTimeline newTimeline = Inr merged \<longrightarrow>
            s \<in> set (steps merged)
            \<and> (\<exists>t \<in> set (steps merged). stepId t = stepId s \<and> step_status t = Completed))
         \<and> (acyclic (step_edges (steps oldTimeline))
            \<and> acyclic (step_edges (steps newTimeline))
            \<and> dependsOn_resolved (steps newTimeline) \<longrightarrow>
              (\<exists>merged. Reconcile place oldTimeline newTimeline = Inr merged))"
proof (intro conjI allI impI)
  fix merged
  assume "Reconcile place oldTimeline newTimeline = Inr merged"
  then have "steps merged = merged_steps place (steps oldTimeline) (steps newTimeline)"
    by (auto simp: Reconcile_def Let_def split: if_splits)
  with completed_old_only_in_merged_steps[OF assms, of place]
  show mem: "s \<in> set (steps merged)" by simp
  with assms(2) show "\<exists>t \<in> set (steps merged). stepId t = stepId s \<and> step_status t = Completed"
    by blast
next
  assume "acyclic (step_edges (steps oldTimeline))
            \<and> acyclic (step_edges (steps newTimeline))
            \<and> dependsOn_resolved (steps newTimeline)"
  then show "\<exists>merged. Reconcile place oldTimeline newTimeline = Inr merged"
    by (simp add: Reconcile_returns)
qed

theorem Reconcile_keeps_completed_history_witness:
  "S1 \<in> set (steps old_timeline) \<and> step_status S1 = Completed
   \<and> stepId S1 \<notin> stepId ` set (steps new_timeline)
   \<and> (\<exists>merged. Reconcile at_end old_timeline new_timeline = Inr merged
         \<and> S1 \<in> set (steps merged))
   \<and> Reconcile at_end old_timeline new_timeline =
       Inr \<lparr> steps = [S1,
                S2_old\<lparr>step_title := ''Book embassy appointment'', dependsOn := {},
                  plannedDate := 25\<rparr>,
                S3],
             generatedAt = 2, sourceFactsHash = ''h2'' \<rparr>"
proof -
  have h1: "S1 \<in> set (steps old_timeline)" by (simp add: old_timeline_def)
  have h2: "step_status S1 = Completed" by (simp add: S1_def)
  have h3: "stepId S1 \<notin> stepId ` set (steps new_timeline)"
    by (simp add: new_timeline_def S1_def S2_new_def S3_def)
  have v1: "acyclic (step_edges (steps old_timeline))"
    by (simp add: old_timeline_def step_edges_def S1_def S2_old_def no_edges_acyclic)
  have v2: "acyclic (step_edges (steps new_timeline))"
    by (simp add: new_timeline_def step_edges_def S2_new_def S3_def no_edges_acyclic)
  have v3: "dependsOn_resolved (steps new_timeline)"
    by (simp add: new_timeline_def dependsOn_resolved_def S2_new_def S3_def)
  from Reconcile_keeps_completed_history[OF h1 h2 h3, of at_end] v1 v2 v3
  have ex: "\<exists>merged. Reconcile at_end old_timeline new_timeline = Inr merged
         \<and> S1 \<in> set (steps merged)"
    by blast
  have ms: "merged_steps at_end (steps old_timeline) (steps new_timeline) =
     [S1, S2_old\<lparr>step_title := ''Book embassy appointment'', dependsOn := {},
        plannedDate := 25\<rparr>, S3]"
    by (simp add: merged_steps_def new_only_def carry_over_def merge_step_def
        insert_at_def at_end_def old_timeline_def new_timeline_def
        S1_def S2_old_def S2_new_def S3_def)
  have ac: "acyclic (step_edges [S1, S2_old\<lparr>step_title := ''Book embassy appointment'',
        dependsOn := {}, plannedDate := 25\<rparr>, S3])"
    by (simp add: step_edges_def S1_def S2_old_def S3_def no_edges_acyclic)
  have "Reconcile at_end old_timeline new_timeline =
       Inr \<lparr> steps = [S1,
                S2_old\<lparr>step_title := ''Book embassy appointment'', dependsOn := {},
                  plannedDate := 25\<rparr>,
                S3],
             generatedAt = 2, sourceFactsHash = ''h2'' \<rparr>"
    by (simp add: Reconcile_def ms ac) (simp add: new_timeline_def)
  with h1 h2 h3 ex show ?thesis by simp
qed

text \<open>
  Claim C6. Reconcile is the identity on equal arguments: for every timeline \<open>T\<close>, that
  is, a timeline that satisfies the invariants of the data model (unique step ids, an
  acyclic dependency graph), \<open>Reconcile(T, T)\<close> returns \<open>T\<close> unchanged.
\<close>

theorem Reconcile_identity:
  assumes "distinct (map stepId (steps T))" and "acyclic (step_edges (steps T))"
  shows "Reconcile place T T = Inr T"
  using assms by (simp add: Reconcile_def merged_steps_self)

theorem Reconcile_identity_witness:
  "distinct (map stepId (steps old_timeline)) \<and> acyclic (step_edges (steps old_timeline))
   \<and> Reconcile at_end old_timeline old_timeline = Inr old_timeline"
proof -
  have d: "distinct (map stepId (steps old_timeline))"
    by (simp add: old_timeline_def S1_def S2_old_def)
  have a: "acyclic (step_edges (steps old_timeline))"
    by (simp add: old_timeline_def step_edges_def S1_def S2_old_def no_edges_acyclic)
  from Reconcile_identity[OF d a, of at_end] d a show ?thesis by simp
qed

end
